theory Spec2Isabelle
  imports Complex_Main "HOL-Library.Product_Lexorder" "HOL-Library.Multiset"
begin

section \<open>Segment algebra of the main script\<close>

text \<open>
  A segment is the pair \<open>(start, end)\<close> of two Python floats, read here as reals: the
  segment code only compares floats and takes \<open>max\<close>, which agree with the reals on
  every finite float. Python compares tuples lexicographically, which is the order
  of \<open>HOL-Library.Product_Lexorder\<close>.
\<close>

type_synonym segment = "real \<times> real"

text \<open>
  The body of the merge loop (\<open>PyClipper_v1.py\<close> lines 686-690 and 722-726,
  \<open>PyClipper_Beta_AudioOptions.py\<close> lines 832-836):
  \<^verbatim>\<open>
    if not merged or seg[0] > merged[-1][1]:
        merged.append(list(seg))
    else:
        merged[-1][1] = max(merged[-1][1], seg[1])
  \<close>
\<close>

definition merge_step :: "segment list \<Rightarrow> segment \<Rightarrow> segment list" where
  "merge_step merged seg =
     (if merged = [] \<or> fst seg > snd (last merged)
      then merged @ [seg]
      else butlast merged @ [(fst (last merged), max (snd (last merged)) (snd seg))])"

text \<open>
  \<^verbatim>\<open>remove_segments.sort(); merged = []; for seg in remove_segments: ...\<close>
  The result replaces \<open>remove_segments\<close>.
\<close>

definition merged :: "segment list \<Rightarrow> segment list" where
  "merged remove_segments = foldl merge_step [] (sort remove_segments)"

text \<open>
  The same loop over \<open>all_mute_segments\<close> (\<open>PyClipper_v1.py\<close> lines 720-726), which
  rebuilds the last tuple instead of assigning into a list. \<open>all_mute_segments\<close> is
  the list of the EDL's mute segments followed by the ones entered at the prompt; the
  script runs the loop when that list is not empty and the video has audio.
\<close>

definition merged_segments :: "segment list \<Rightarrow> segment list" where
  "merged_segments all_mute_segments = foldl merge_step [] (sort all_mute_segments)"

text \<open>
  The keep loop (\<open>PyClipper_v1.py\<close> lines 731-738,
  \<open>PyClipper_Beta_AudioOptions.py\<close> lines 840-847): the state is
  \<open>(last_end, keep_segments)\<close>, and \<open>duration\<close> is \<^verbatim>\<open>video.duration\<close>.
\<close>

definition keep_step :: "real \<times> segment list \<Rightarrow> segment \<Rightarrow> real \<times> segment list" where
  "keep_step st seg =
     (case st of (last_end, keep) \<Rightarrow>
        (snd seg, if last_end < fst seg then keep @ [(last_end, fst seg)] else keep))"

definition keep_segments :: "segment list \<Rightarrow> real \<Rightarrow> segment list" where
  "keep_segments remove_segments duration =
     (case foldl keep_step (0, []) remove_segments of (last_end, keep) \<Rightarrow>
        if last_end < duration then keep @ [(last_end, duration)] else keep)"

text \<open>Lines 739-741: with nothing left to keep the script prints and exits with status 1.\<close>

datatype exit = NoVideoLeft

definition keep_or_exit :: "segment list \<Rightarrow> real \<Rightarrow> exit + segment list" where
  "keep_or_exit remove_segments duration =
     (let keep = keep_segments remove_segments duration
      in if keep = [] then Inl NoVideoLeft else Inr keep)"

subsection \<open>The merge loop as a recursion on the remaining input\<close>

text \<open>
  \<open>merge_from cur rest\<close> is what the loop still produces when \<open>cur\<close> is the last
  entry of \<open>merged\<close> and \<open>rest\<close> is the input not yet visited.
\<close>

fun merge_from :: "segment \<Rightarrow> segment list \<Rightarrow> segment list" where
  "merge_from cur [] = [cur]"
| "merge_from cur (seg # rest) =
     (if fst seg > snd cur then cur # merge_from seg rest
      else merge_from (fst cur, max (snd cur) (snd seg)) rest)"

text \<open>\<open>covers r x\<close>: the segment \<open>x\<close> lies within the segment \<open>r\<close>.\<close>

definition covers :: "segment \<Rightarrow> segment \<Rightarrow> bool" where
  "covers r x = (fst r \<le> fst x \<and> snd x \<le> snd r)"

subsection \<open>Measuring segments\<close>

text \<open>
  \<open>span r\<close> is the half-open interval a segment stands for, \<open>seg_len r\<close> its length.
\<close>

definition span :: "segment \<Rightarrow> real set" where
  "span r = {fst r ..< snd r}"

definition seg_len :: "segment \<Rightarrow> real" where
  "seg_len r = snd r - fst r"

text \<open>
  \<open>keep_from last_end rest duration\<close> is what the keep loop still appends when
  \<open>last_end\<close> is its cursor and \<open>rest\<close> the remove segments not yet visited,
  the final test of line 737 included.
\<close>

fun keep_from :: "real \<Rightarrow> segment list \<Rightarrow> real \<Rightarrow> segment list" where
  "keep_from last_end [] duration = (if last_end < duration then [(last_end, duration)] else [])"
| "keep_from last_end (seg # rest) duration =
     (if last_end < fst seg then (last_end, fst seg) # keep_from (snd seg) rest duration
      else keep_from (snd seg) rest duration)"

text \<open>
  The total duration of a list of segments, and when two segments overlap: their
  intersection has positive length (touching at a boundary is not overlapping).
\<close>

definition total_duration :: "segment list \<Rightarrow> real" where
  "total_duration segs = sum_list (map seg_len segs)"

definition overlap :: "segment \<Rightarrow> segment \<Rightarrow> bool" where
  "overlap a b = (max (fst a) (fst b) < min (snd a) (snd b))"

section \<open>Timestamps and the EDL loader\<close>

subsection \<open>Python strings and floats\<close>

text \<open>
  Strings are byte strings. \<open>strip\<close> and \<open>lower\<close> are \<^verbatim>\<open>str.strip()\<close> and
  \<^verbatim>\<open>str.lower()\<close> on ASCII text: the whitespace characters are the six ASCII blanks
  and the four separators \<open>0x1C\<close> to \<open>0x1F\<close>, and only \<open>A\<close> to \<open>Z\<close> change case.
\<close>

definition isspace :: "char \<Rightarrow> bool" where
  "isspace c = (c \<in> set [CHR '' '', CHR 0x09, CHR 0x0A, CHR 0x0B, CHR 0x0C, CHR 0x0D,
                          CHR 0x1C, CHR 0x1D, CHR 0x1E, CHR 0x1F])"

definition strip :: "string \<Rightarrow> string" where
  "strip s = rev (dropWhile isspace (rev (dropWhile isspace s)))"

definition lower_char :: "char \<Rightarrow> char" where
  "lower_char c =
     (case map_of (zip ''ABCDEFGHIJKLMNOPQRSTUVWXYZ'' ''abcdefghijklmnopqrstuvwxyz'') c of
        Some d \<Rightarrow> d
      | None \<Rightarrow> c)"

definition lower :: "string \<Rightarrow> string" where
  "lower s = map lower_char s"

text \<open>\<^verbatim>\<open>s.split(':')\<close>: the pieces between the colons, at least one piece.\<close>

fun split_colon :: "string \<Rightarrow> string list" where
  "split_colon [] = [[]]"
| "split_colon (c # cs) =
     (if c = CHR '':'' then [] # split_colon cs
      else (case split_colon cs of [] \<Rightarrow> [[c]] | p # ps \<Rightarrow> (c # p) # ps))"

text \<open>
  \<^verbatim>\<open>float(text)\<close> is a builtin of Python, not code of this program: the functions below
  take it as the parameter \<open>fl\<close>, which gives the float read as a real, or \<open>None\<close>
  where \<^verbatim>\<open>float\<close> raises \<^verbatim>\<open>ValueError\<close>. Sums and products of floats are taken as
  sums and products of reals; the infinite floats and the not-a-number float are
  outside the model.
\<close>

type_synonym float_reader = "string \<Rightarrow> real option"

text \<open>
  For the concrete examples, \<open>float_decimal\<close> reads what \<^verbatim>\<open>float\<close> reads among the
  plain decimal numerals: blanks around, an optional sign, digits with an optional
  point (\<open>12\<close>, \<open>12.5\<close>, \<open>.5\<close>, \<open>5.\<close>). Every other text is unreadable to it.
\<close>

definition digit_of :: "char \<Rightarrow> nat option" where
  "digit_of c = map_of (zip ''0123456789'' [0, 1, 2, 3, 4, 5, 6, 7, 8, 9]) c"

definition digits_value :: "string \<Rightarrow> nat option" where
  "digits_value s =
     (if s = [] then None
      else foldl (\<lambda>acc c. case acc of None \<Rightarrow> None
                         | Some n \<Rightarrow> (case digit_of c of None \<Rightarrow> None
                                      | Some d \<Rightarrow> Some (10 * n + d)))
             (Some 0) s)"

definition unsigned_decimal :: "string \<Rightarrow> real option" where
  "unsigned_decimal s =
     (let ip = takeWhile (\<lambda>c. c \<noteq> CHR ''.'') s;
          rest = dropWhile (\<lambda>c. c \<noteq> CHR ''.'') s
      in case rest of
           [] \<Rightarrow> map_option real (digits_value ip)
         | _ # fp \<Rightarrow>
             if fp = [] then map_option real (digits_value ip)
             else (case (if ip = [] then Some 0 else digits_value ip) of
                     None \<Rightarrow> None
                   | Some i \<Rightarrow> (case digits_value fp of
                                 None \<Rightarrow> None
                               | Some f \<Rightarrow> Some (real i + real f / 10 ^ length fp))))"

definition float_decimal :: float_reader where
  "float_decimal s =
     (case strip s of
        [] \<Rightarrow> None
      | c # cs \<Rightarrow>
          if c = CHR ''-'' then map_option uminus (unsigned_decimal cs)
          else if c = CHR ''+'' then unsigned_decimal cs
          else unsigned_decimal (c # cs))"

subsection \<open>Exceptions\<close>

text \<open>
  The exceptions a row can raise inside the \<^verbatim>\<open>try\<close> of \<^verbatim>\<open>load_edl_csv\<close>, by the place that
  raises them. All but the last two are \<^verbatim>\<open>ValueError\<close>.
\<close>

datatype error =
    FloatError string \<comment> \<open>\<^verbatim>\<open>float\<close> could not convert the text\<close>
  | InvalidTimeFormat string \<comment> \<open>\<^verbatim>\<open>Invalid time format: {s}\<close>\<close>
  | CouldNotParse string \<comment> \<open>\<^verbatim>\<open>Could not parse timestamp: {s}\<close>\<close>
  | MissingRecord string \<comment> \<open>\<^verbatim>\<open>Missing record_in or record_out for action '{action}'\<close>\<close>
  | InvalidTimeRange real real \<comment> \<open>\<^verbatim>\<open>Invalid time range: {record_in}-{record_out}s\<close>\<close>
  | MissingInsertSource \<comment> \<open>\<^verbatim>\<open>Missing insert_source for insert action\<close>\<close>
  | MissingSource \<comment> \<open>\<^verbatim>\<open>Missing source_in or source_out for insert action\<close>\<close>
  | InvalidSourceRange real real \<comment> \<open>\<^verbatim>\<open>Invalid source range: {source_in}-{source_out}s\<close>\<close>
  | MissingRecordIn \<comment> \<open>\<^verbatim>\<open>Missing record_in for insert action\<close>\<close>
  | AttributeError \<comment> \<open>\<^verbatim>\<open>None\<close> has no \<^verbatim>\<open>strip\<close>\<close>
  | TypeError \<comment> \<open>a float compared with \<^verbatim>\<open>None\<close>\<close>

text \<open>In strict mode: \<^verbatim>\<open>ValueError(f"Error in row {row_idx}: {e}")\<close>.\<close>

datatype load_error = ErrorInRow nat error

subsection \<open>The timestamp parser\<close>

text \<open>\<^verbatim>\<open>list(map(float, parts))\<close>: the first unreadable part raises.\<close>

fun map_float :: "float_reader \<Rightarrow> string list \<Rightarrow> error + real list" where
  "map_float fl [] = Inr []"
| "map_float fl (p # ps) =
     (case fl p of
        None \<Rightarrow> Inl (FloatError p)
      | Some x \<Rightarrow> (case map_float fl ps of Inl e \<Rightarrow> Inl e | Inr xs \<Rightarrow> Inr (x # xs)))"

text \<open>
  \<^verbatim>\<open>parse_timestamp_string(s, video_duration)\<close>, the same in both scripts (line 215).
  \<open>video_duration\<close> is a float or \<^verbatim>\<open>None\<close>, and so is the result.
\<close>

definition parse_timestamp_string :: "float_reader \<Rightarrow> string \<Rightarrow> real option \<Rightarrow> error + real option" where
  "parse_timestamp_string fl s0 video_duration =
     (let s = lower (strip s0) in
      if s = ''start'' then Inr (Some 0)
      else if s = ''end'' then Inr video_duration
      else if CHR '':'' \<in> set s then
        (case map_float fl (split_colon s) of
           Inl e \<Rightarrow> Inl e
         | Inr parts \<Rightarrow>
             if length parts = 2 then Inr (Some (parts ! 0 * 60 + parts ! 1))
             else if length parts = 3
               then Inr (Some (parts ! 0 * 3600 + parts ! 1 * 60 + parts ! 2))
             else Inl (InvalidTimeFormat s))
      else (case fl s of
              Some x \<Rightarrow> Inr (Some x)
            | None \<Rightarrow> Inl (CouldNotParse s)))"

subsection \<open>Rows and operations\<close>

text \<open>
  A row of \<^verbatim>\<open>csv.DictReader\<close>: a dictionary from the column names of the header to
  the cells. A cell is a text, or \<^verbatim>\<open>None\<close> when the line has fewer cells than the header.
\<close>

type_synonym row = "string \<rightharpoonup> string option"

text \<open>\<^verbatim>\<open>row.get(key, default)\<close>.\<close>

definition row_get :: "row \<Rightarrow> string \<Rightarrow> string \<Rightarrow> string option" where
  "row_get row key dflt = (case row key of None \<Rightarrow> Some dflt | Some v \<Rightarrow> v)"

text \<open>
  The operation dictionary \<^verbatim>\<open>op\<close>: one field for each key the loaders can set, \<open>None\<close>
  while the key is not set. A timestamp value is a float or \<^verbatim>\<open>None\<close>, a transition
  name is a text or \<^verbatim>\<open>None\<close>.
\<close>

record op =
  action :: string
  record_in :: "real option option"
  record_out :: "real option option"
  insert_source :: "string option"
  source_in :: "real option option"
  source_out :: "real option option"
  transition_in :: "string option option"
  transition_in_duration :: "real option"
  transition_out :: "string option option"
  transition_out_duration :: "real option"

text \<open>\<^verbatim>\<open>op = {'action': action}\<close>.\<close>

definition new_op :: "string \<Rightarrow> op" where
  "new_op a =
     \<lparr>action = a, record_in = None, record_out = None, insert_source = None,
      source_in = None, source_out = None, transition_in = None,
      transition_in_duration = None, transition_out = None,
      transition_out_duration = None\<rparr>"

text \<open>\<^verbatim>\<open>op.get(key)\<close>: \<^verbatim>\<open>None\<close> for a key not set and for a key set to \<^verbatim>\<open>None\<close>.\<close>

definition dict_get :: "'a option option \<Rightarrow> 'a option" where
  "dict_get v = (case v of None \<Rightarrow> None | Some x \<Rightarrow> x)"

subsection \<open>The body of the loader's loop\<close>

text \<open>
  \<^verbatim>\<open>if key in row and row[key]: op[key] = parse_timestamp_string(row[key], video_duration)\<close>
  gives the new entry of \<open>op\<close>, \<open>None\<close> when the key stays unset.
\<close>

definition parse_record :: "float_reader \<Rightarrow> real option \<Rightarrow> row \<Rightarrow> string \<Rightarrow> error + real option option" where
  "parse_record fl video_duration row key =
     (case row key of
        Some (Some s) \<Rightarrow>
          if s = [] then Inr None
          else (case parse_timestamp_string fl s video_duration of
                  Inl e \<Rightarrow> Inl e
                | Inr t \<Rightarrow> Inr (Some t))
      | _ \<Rightarrow> Inr None)"

text \<open>
  \<^verbatim>\<open>if action in {'remove', 'keep'}: ...\<close> (\<open>PyClipper_v1.py\<close> lines 595-599). The chained
  comparison \<^verbatim>\<open>0 <= record_in < record_out <= video_duration\<close> stops at the first
  false link, and reaches \<open>video_duration\<close> only after the first two hold.
\<close>

definition check_record_range :: "real option \<Rightarrow> op \<Rightarrow> error + op" where
  "check_record_range video_duration op =
     (if action op = ''remove'' \<or> action op = ''keep'' then
        (case dict_get (record_in op) of
           None \<Rightarrow> Inl (MissingRecord (action op))
         | Some a \<Rightarrow>
             (case dict_get (record_out op) of
                None \<Rightarrow> Inl (MissingRecord (action op))
              | Some b \<Rightarrow>
                  if 0 \<le> a \<and> a < b then
                    (case video_duration of
                       None \<Rightarrow> Inl TypeError
                     | Some d \<Rightarrow> if b \<le> d then Inr op else Inl (InvalidTimeRange a b))
                  else Inl (InvalidTimeRange a b)))
      else Inr op)"

text \<open>
  The statements of the \<^verbatim>\<open>try\<close> up to the range check: \<open>PyClipper_v1.py\<close> lines 589-599,
  which is all of its \<^verbatim>\<open>try\<close> but the \<^verbatim>\<open>append\<close>, and the same text at
  \<open>PyClipper_Beta_AudioOptions.py\<close> lines 301-315.
\<close>

definition record_fields :: "float_reader \<Rightarrow> real option \<Rightarrow> row \<Rightarrow> error + op" where
  "record_fields fl video_duration row =
     (case row_get row ''action'' [] of
        None \<Rightarrow> Inl AttributeError
      | Some a \<Rightarrow>
          (case parse_record fl video_duration row ''record_in'' of
             Inl e \<Rightarrow> Inl e
           | Inr ri \<Rightarrow>
               (case parse_record fl video_duration row ''record_out'' of
                  Inl e \<Rightarrow> Inl e
                | Inr ro \<Rightarrow>
                    check_record_range video_duration
                      ((new_op (lower (strip a)))\<lparr>record_in := ri, record_out := ro\<rparr>))))"

text \<open>
  \<^verbatim>\<open>parse_timestamp_string(row.get(key, default), None)\<close>: a \<^verbatim>\<open>None\<close> cell has no
  \<^verbatim>\<open>strip\<close>.
\<close>

definition parse_source :: "float_reader \<Rightarrow> string option \<Rightarrow> error + real option" where
  "parse_source fl cell =
     (case cell of None \<Rightarrow> Inl AttributeError | Some s \<Rightarrow> parse_timestamp_string fl s None)"

text \<open>\<^verbatim>\<open>row.get(key, '').strip().lower() or None\<close>.\<close>

definition transition_name :: "row \<Rightarrow> string \<Rightarrow> error + string option" where
  "transition_name row key =
     (case row_get row key [] of
        None \<Rightarrow> Inl AttributeError
      | Some s \<Rightarrow> Inr (if lower (strip s) = [] then None else Some (lower (strip s))))"

text \<open>\<^verbatim>\<open>float(row.get(key, '0') or 0)\<close>.\<close>

definition transition_duration :: "float_reader \<Rightarrow> row \<Rightarrow> string \<Rightarrow> error + real" where
  "transition_duration fl row key =
     (case row_get row key ''0'' of
        None \<Rightarrow> Inr 0
      | Some s \<Rightarrow>
          if s = [] then Inr 0
          else (case fl s of None \<Rightarrow> Inl (FloatError s) | Some x \<Rightarrow> Inr x))"

text \<open>The optional transitions (\<open>PyClipper_Beta_AudioOptions.py\<close> lines 333-336).\<close>

definition transitions :: "float_reader \<Rightarrow> row \<Rightarrow> op \<Rightarrow> error + op" where
  "transitions fl row op =
     (case transition_name row ''transition_in'' of
        Inl e \<Rightarrow> Inl e
      | Inr ti \<Rightarrow>
          (case transition_duration fl row ''transition_in_duration'' of
             Inl e \<Rightarrow> Inl e
           | Inr tid \<Rightarrow>
               (case transition_name row ''transition_out'' of
                  Inl e \<Rightarrow> Inl e
                | Inr tout \<Rightarrow>
                    (case transition_duration fl row ''transition_out_duration'' of
                       Inl e \<Rightarrow> Inl e
                     | Inr tod \<Rightarrow>
                         Inr (op\<lparr>transition_in := Some ti, transition_in_duration := Some tid,
                                 transition_out := Some tout,
                                 transition_out_duration := Some tod\<rparr>)))))"

text \<open>\<^verbatim>\<open>if action == 'insert': ...\<close> (\<open>PyClipper_Beta_AudioOptions.py\<close> lines 318-336).\<close>

definition insert_fields :: "float_reader \<Rightarrow> row \<Rightarrow> op \<Rightarrow> error + op" where
  "insert_fields fl row op =
     (case row_get row ''insert_source'' [] of
        None \<Rightarrow> Inl AttributeError
      | Some src \<Rightarrow>
          if strip src = [] then Inl MissingInsertSource
          else
            (case parse_source fl (row_get row ''source_in'' ''0'') of
               Inl e \<Rightarrow> Inl e
             | Inr si \<Rightarrow>
                 (case parse_source fl (row_get row ''source_out'' []) of
                    Inl e \<Rightarrow> Inl e
                  | Inr so \<Rightarrow>
                      (case so of
                         None \<Rightarrow> Inl MissingSource
                       | Some b \<Rightarrow>
                           (case si of
                              None \<Rightarrow> Inl MissingSource
                            | Some a \<Rightarrow>
                                if a \<ge> b then Inl (InvalidSourceRange a b)
                                else if dict_get (record_in op) = None then Inl MissingRecordIn
                                else transitions fl row
                                       (op\<lparr>insert_source := Some (strip src),
                                           source_in := Some si,
                                           source_out := Some so\<rparr>))))))"

text \<open>The whole \<^verbatim>\<open>try\<close> of each script, up to the \<^verbatim>\<open>append\<close>.\<close>

definition try_row_v1 :: "float_reader \<Rightarrow> real option \<Rightarrow> row \<Rightarrow> error + op" where
  "try_row_v1 fl video_duration row = record_fields fl video_duration row"

definition try_row_beta :: "float_reader \<Rightarrow> real option \<Rightarrow> row \<Rightarrow> error + op" where
  "try_row_beta fl video_duration row =
     (case record_fields fl video_duration row of
        Inl e \<Rightarrow> Inl e
      | Inr op \<Rightarrow> if action op = ''insert'' then insert_fields fl row op else Inr op)"

subsection \<open>The loader\<close>

text \<open>
  The loop of \<^verbatim>\<open>load_edl_csv\<close> over the rows the reader yields, numbered from 1. The
  state is the list \<open>operations\<close> and what has been printed: one pair of row number
  and exception for each \<^verbatim>\<open>Skipping invalid row {row_idx}: {e}\<close>. In strict mode the
  first failing row ends the load with the exception \<open>ErrorInRow\<close>. Opening and
  decoding the file is outside the model.
\<close>

fun load_rows ::
  "(row \<Rightarrow> error + op) \<Rightarrow> bool \<Rightarrow> nat \<Rightarrow> row list \<Rightarrow> op list \<Rightarrow> (nat \<times> error) list
     \<Rightarrow> (nat \<times> error) list \<times> (load_error + op list)" where
  "load_rows body strict row_idx [] operations printed = (printed, Inr operations)"
| "load_rows body strict row_idx (row # rows) operations printed =
     (case body row of
        Inr op \<Rightarrow> load_rows body strict (row_idx + 1) rows (operations @ [op]) printed
      | Inl e \<Rightarrow>
          if strict then (printed, Inl (ErrorInRow row_idx e))
          else load_rows body strict (row_idx + 1) rows operations (printed @ [(row_idx, e)]))"

definition load_edl_csv_v1 ::
  "float_reader \<Rightarrow> row list \<Rightarrow> real option \<Rightarrow> bool \<Rightarrow> (nat \<times> error) list \<times> (load_error + op list)" where
  "load_edl_csv_v1 fl rows video_duration strict =
     load_rows (try_row_v1 fl video_duration) strict 1 rows [] []"

definition load_edl_csv_beta ::
  "float_reader \<Rightarrow> row list \<Rightarrow> real option \<Rightarrow> bool \<Rightarrow> (nat \<times> error) list \<times> (load_error + op list)" where
  "load_edl_csv_beta fl rows video_duration strict =
     load_rows (try_row_beta fl video_duration) strict 1 rows [] []"

subsection \<open>Rows for the examples and two tests on cells\<close>

text \<open>
  \<open>csv_row\<close> is the row of a line that has a cell for each of the given columns.
  \<open>blank cell\<close> says that \<^verbatim>\<open>cell.strip()\<close> is empty or cannot be taken, and
  \<open>unset row key\<close> that \<^verbatim>\<open>key in row and row[key]\<close> is false, so that the loader
  leaves \<^verbatim>\<open>op[key]\<close> unset.
\<close>

definition csv_row :: "(string \<times> string) list \<Rightarrow> row" where
  "csv_row cells = map_of (map (\<lambda>(k, v). (k, Some v)) cells)"



subsection \<open>Reading the segments out of the operations\<close>

text \<open>
  \<^verbatim>\<open>[(op['record_in'], op['record_out']) for op in edl_operations if op['action'] == act]\<close>
  (\<open>PyClipper_v1.py\<close> lines 664-667 for \<open>remove\<close> and lines 696-699 for \<open>mute_audio\<close>):
  subscripting a key that is not set raises \<^verbatim>\<open>KeyError\<close>, which nothing catches.
\<close>

datatype key_error = KeyError string

fun edl_segments :: "string \<Rightarrow> op list \<Rightarrow> key_error + (real option \<times> real option) list" where
  "edl_segments act [] = Inr []"
| "edl_segments act (op # ops) =
     (if action op = act then
        (case record_in op of
           None \<Rightarrow> Inl (KeyError ''record_in'')
         | Some a \<Rightarrow>
             (case record_out op of
                None \<Rightarrow> Inl (KeyError ''record_out'')
              | Some b \<Rightarrow>
                  (case edl_segments act ops of
                     Inl e \<Rightarrow> Inl e
                   | Inr segs \<Rightarrow> Inr ((a, b) # segs))))
      else edl_segments act ops)"

section \<open>Lemmas about the merge loop\<close>

lemma foldl_merge_from:
  "foldl merge_step (ms @ [cur]) rest = ms @ merge_from cur rest"
proof (induction rest arbitrary: ms cur)
  case Nil
  show ?case by simp
next
  case (Cons seg rest)
  show ?case
  proof (cases "fst seg > snd cur")
    case True
    have "merge_step (ms @ [cur]) seg = (ms @ [cur]) @ [seg]"
      using True by (simp add: merge_step_def)
    then show ?thesis
      using Cons.IH [of "ms @ [cur]" seg] True by simp
  next
    case False
    have "merge_step (ms @ [cur]) seg = ms @ [(fst cur, max (snd cur) (snd seg))]"
      using False by (simp add: merge_step_def)
    then show ?thesis
      using Cons.IH [of ms "(fst cur, max (snd cur) (snd seg))"] False by simp
  qed
qed

lemma foldl_merge_step_Cons:
  "foldl merge_step [] (x # xs) = merge_from x xs"
proof -
  have "merge_step [] x = [] @ [x]" by (simp add: merge_step_def)
  then show ?thesis using foldl_merge_from [of "[]" x xs] by simp
qed

lemma hd_merge_from: "\<exists>e ms. merge_from cur rest = (fst cur, e) # ms \<and> snd cur \<le> e"
proof (induction rest arbitrary: cur)
  case Nil
  have "merge_from cur [] = (fst cur, snd cur) # [] \<and> snd cur \<le> snd cur" by simp
  then show ?case by blast
next
  case (Cons seg rest)
  show ?case
  proof (cases "fst seg > snd cur")
    case True
    then have "merge_from cur (seg # rest) = (fst cur, snd cur) # merge_from seg rest
        \<and> snd cur \<le> snd cur" by simp
    then show ?thesis by blast
  next
    case False
    from Cons.IH [of "(fst cur, max (snd cur) (snd seg))"]
    obtain e ms where "merge_from (fst cur, max (snd cur) (snd seg)) rest = (fst cur, e) # ms"
      and "max (snd cur) (snd seg) \<le> e" by auto
    then show ?thesis using False by auto
  qed
qed

lemma merge_from_starts:
  "sorted (map fst (cur # rest)) \<Longrightarrow> \<forall>r \<in> set (merge_from cur rest). fst cur \<le> fst r"
proof (induction rest arbitrary: cur)
  case Nil
  show ?case by simp
next
  case (Cons seg rest)
  show ?case
  proof (cases "fst seg > snd cur")
    case True
    have "sorted (map fst (seg # rest))" using Cons.prems by simp
    from Cons.IH [OF this] have "\<forall>r \<in> set (merge_from seg rest). fst seg \<le> fst r" .
    moreover have "fst cur \<le> fst seg" using Cons.prems by simp
    ultimately show ?thesis using True by auto
  next
    case False
    have "sorted (map fst ((fst cur, max (snd cur) (snd seg)) # rest))"
      using Cons.prems by simp
    from Cons.IH [OF this] show ?thesis using False by simp
  qed
qed

text \<open>Every later entry starts strictly after the end of every earlier one.\<close>

lemma merge_from_separated:
  "sorted (map fst (cur # rest)) \<Longrightarrow>
   sorted_wrt (\<lambda>a b. snd a < fst b) (merge_from cur rest)"
proof (induction rest arbitrary: cur)
  case Nil
  show ?case by simp
next
  case (Cons seg rest)
  show ?case
  proof (cases "fst seg > snd cur")
    case True
    have srt: "sorted (map fst (seg # rest))" using Cons.prems by simp
    have sep: "sorted_wrt (\<lambda>a b. snd a < fst b) (merge_from seg rest)"
      using Cons.IH [OF srt] .
    have "\<forall>r \<in> set (merge_from seg rest). fst seg \<le> fst r"
      using merge_from_starts [OF srt] .
    then have "\<forall>r \<in> set (merge_from seg rest). snd cur < fst r"
      using True by fastforce
    then show ?thesis using True sep by simp
  next
    case False
    have "sorted (map fst ((fst cur, max (snd cur) (snd seg)) # rest))"
      using Cons.prems by simp
    from Cons.IH [OF this] show ?thesis using False by simp
  qed
qed

lemma merge_from_sorted_starts:
  "sorted (map fst (cur # rest)) \<Longrightarrow> sorted (map fst (merge_from cur rest))"
proof (induction rest arbitrary: cur)
  case Nil
  show ?case by simp
next
  case (Cons seg rest)
  show ?case
  proof (cases "fst seg > snd cur")
    case True
    have srt: "sorted (map fst (seg # rest))" using Cons.prems by simp
    have "\<forall>r \<in> set (merge_from seg rest). fst seg \<le> fst r"
      using merge_from_starts [OF srt] .
    moreover have "fst cur \<le> fst seg" using Cons.prems by simp
    ultimately have "\<forall>r \<in> set (merge_from seg rest). fst cur \<le> fst r" by fastforce
    then show ?thesis using True Cons.IH [OF srt] by simp
  next
    case False
    have "sorted (map fst ((fst cur, max (snd cur) (snd seg)) # rest))"
      using Cons.prems by simp
    from Cons.IH [OF this] show ?thesis using False by simp
  qed
qed

lemma sorted_map_fst_sort: "sorted (map fst (sort (xs :: segment list)))"
proof -
  have "sorted (sort xs)" by simp
  moreover have "\<And>ys :: segment list. sorted ys \<Longrightarrow> sorted (map fst ys)"
  proof -
    fix ys :: "segment list"
    show "sorted ys \<Longrightarrow> sorted (map fst ys)"
      by (induction ys) (auto simp: less_eq_prod_def)
  qed
  ultimately show ?thesis by blast
qed

lemma merged_separated: "sorted_wrt (\<lambda>a b. snd a < fst b) (merged xs)"
proof (cases "sort xs")
  case Nil
  then show ?thesis by (simp add: merged_def)
next
  case (Cons y ys)
  have "sorted (map fst (y # ys))" using sorted_map_fst_sort [of xs] Cons by simp
  from merge_from_separated [OF this] show ?thesis
    using Cons by (simp add: merged_def foldl_merge_step_Cons del: foldl_Cons)
qed

lemma merged_sorted_starts: "sorted (map fst (merged xs))"
proof (cases "sort xs")
  case Nil
  then show ?thesis by (simp add: merged_def)
next
  case (Cons y ys)
  have "sorted (map fst (y # ys))" using sorted_map_fst_sort [of xs] Cons by simp
  from merge_from_sorted_starts [OF this] show ?thesis
    using Cons by (simp add: merged_def foldl_merge_step_Cons del: foldl_Cons)
qed

lemma merge_from_lex_sorted:
  "sorted (cur # rest) \<Longrightarrow> sorted (merge_from cur rest)"
proof (induction rest arbitrary: cur)
  case Nil
  show ?case by simp
next
  case (Cons seg rest)
  show ?case
  proof (cases "fst seg > snd cur")
    case True
    have srt: "sorted (seg # rest)" using Cons.prems by simp
    obtain e ms where eq: "merge_from seg rest = (fst seg, e) # ms" and e: "snd seg \<le> e"
      using hd_merge_from [of seg rest] by blast
    have "cur \<le> seg" using Cons.prems by simp
    then have c1: "cur \<le> (fst seg, e)" using e by (auto simp: less_eq_prod_def)
    have s1: "sorted ((fst seg, e) # ms)" using Cons.IH [OF srt] eq by simp
    have "\<forall>x \<in> set ms. cur \<le> x"
    proof
      fix x assume "x \<in> set ms"
      then have "(fst seg, e) \<le> x" using s1 by (simp del: less_eq_prod_simp)
      with c1 show "cur \<le> x" by (rule order_trans)
    qed
    then have "sorted (cur # (fst seg, e) # ms)"
      using c1 s1 by (simp del: less_eq_prod_simp)
    then show ?thesis using True eq by simp
  next
    case False
    have le: "cur \<le> seg" and rest: "\<forall>r \<in> set rest. seg \<le> r" and srt: "sorted rest"
      using Cons.prems by auto
    have "\<forall>r \<in> set rest. (fst cur, max (snd cur) (snd seg)) \<le> r"
    proof
      fix r assume "r \<in> set rest"
      then have "seg \<le> r" using rest by blast
      then show "(fst cur, max (snd cur) (snd seg)) \<le> r"
        using le by (auto simp: less_eq_prod_def)
    qed
    then have "sorted ((fst cur, max (snd cur) (snd seg)) # rest)" using srt by simp
    from Cons.IH [OF this] show ?thesis using False by simp
  qed
qed

lemma merge_from_separated_id:
  "sorted_wrt (\<lambda>a b. snd a < fst b) (cur # rest) \<Longrightarrow> merge_from cur rest = cur # rest"
  by (induction rest arbitrary: cur) auto

lemma merged_lex_sorted: "sorted (merged xs)"
proof (cases "sort xs")
  case Nil
  then show ?thesis by (simp add: merged_def)
next
  case (Cons y ys)
  have "sorted (y # ys)" using sorted_sort [of xs] Cons by simp
  from merge_from_lex_sorted [OF this] show ?thesis
    using Cons by (simp add: merged_def foldl_merge_step_Cons del: foldl_Cons)
qed

lemma merge_loop_separated_id:
  "sorted_wrt (\<lambda>a b. snd a < fst b) ys \<Longrightarrow> foldl merge_step [] ys = ys"
proof (cases ys)
  case Nil
  then show ?thesis by simp
next
  case (Cons z zs)
  assume "sorted_wrt (\<lambda>a b. snd a < fst b) ys"
  then have "merge_from z zs = z # zs" using Cons merge_from_separated_id by blast
  then show ?thesis using Cons by (simp add: foldl_merge_step_Cons del: foldl_Cons)
qed


lemma covers_trans: "covers r y \<Longrightarrow> covers y x \<Longrightarrow> covers r x"
  by (auto simp: covers_def)

lemma merge_from_covers:
  "sorted (map fst (cur # rest)) \<Longrightarrow> x \<in> set (cur # rest) \<Longrightarrow>
   \<exists>r \<in> set (merge_from cur rest). covers r x"
proof (induction rest arbitrary: cur x)
  case Nil
  then show ?case by (simp add: covers_def)
next
  case (Cons seg rest)
  show ?case
  proof (cases "fst seg > snd cur")
    case True
    have srt: "sorted (map fst (seg # rest))" using Cons.prems(1) by simp
    show ?thesis
    proof (cases "x = cur")
      case True
      then show ?thesis using \<open>fst seg > snd cur\<close> by (simp add: covers_def)
    next
      case False
      then have "x \<in> set (seg # rest)" using Cons.prems(2) by simp
      from Cons.IH [OF srt this] show ?thesis using True by auto
    qed
  next
    case False
    let ?c = "(fst cur, max (snd cur) (snd seg))"
    have srt: "sorted (map fst (?c # rest))" using Cons.prems(1) by simp
    have le: "fst cur \<le> fst seg" using Cons.prems(1) by simp
    have x: "x \<in> set rest \<or> covers ?c x"
      using Cons.prems(2) le by (auto simp: covers_def)
    show ?thesis
    proof (cases "x \<in> set rest")
      case True
      then have "x \<in> set (?c # rest)" by simp
      from Cons.IH [OF srt this] show ?thesis using False by simp
    next
      case nin: False
      then have cx: "covers ?c x" using x by blast
      have "?c \<in> set (?c # rest)" by simp
      from Cons.IH [OF srt this] obtain r where
        r: "r \<in> set (merge_from ?c rest)" and rc: "covers r ?c" by blast
      have "covers r x" using rc cx by (rule covers_trans)
      moreover have "merge_from cur (seg # rest) = merge_from ?c rest" using False by simp
      ultimately show ?thesis using r by metis
    qed
  qed
qed

lemma merged_covers:
  assumes "x \<in> set xs"
  shows "\<exists>r \<in> set (merged xs). covers r x"
proof (cases "sort xs")
  case Nil
  then have "set (sort xs) = {}" by simp
  then show ?thesis using assms by simp
next
  case (Cons y ys)
  have srt: "sorted (map fst (y # ys))" using sorted_map_fst_sort [of xs] Cons by simp
  have "x \<in> set (sort xs)" using assms by simp
  then have "x \<in> set (y # ys)" using Cons by simp
  from merge_from_covers [OF srt this] show ?thesis
    using Cons by (simp add: merged_def foldl_merge_step_Cons del: foldl_Cons)
qed

lemma sorted_wrt_cases:
  "sorted_wrt P ys \<Longrightarrow> x \<in> set ys \<Longrightarrow> y \<in> set ys \<Longrightarrow> x = y \<or> P x y \<or> P y x"
  by (induction ys) auto

section \<open>Lemmas about the keep loop\<close>

lemma foldl_keep_from:
  "(case foldl keep_step (c, ks) rem of (last_end, keep) \<Rightarrow>
      if last_end < D then keep @ [(last_end, D)] else keep) = ks @ keep_from c rem D"
  by (induction rem arbitrary: c ks) (auto simp: keep_step_def)

lemma keep_segments_keep_from: "keep_segments rem D = keep_from 0 rem D"
  using foldl_keep_from [of D 0 "[]" rem] by (simp add: keep_segments_def)

lemma keep_from_cover:
  "c \<le> D \<Longrightarrow> sorted_wrt (\<lambda>a b. snd a \<le> fst b) rem \<Longrightarrow>
   \<forall>r \<in> set rem. c \<le> fst r \<and> fst r \<le> snd r \<and> snd r \<le> D \<Longrightarrow>
   (\<Union>r \<in> set (keep_from c rem D @ rem). span r) = {c ..< D}"
proof (induction rem arbitrary: c)
  case Nil
  then show ?case by (auto simp: span_def)
next
  case (Cons seg rest)
  have seg: "c \<le> fst seg" "fst seg \<le> snd seg" "snd seg \<le> D" using Cons.prems(3) by auto
  have srt: "sorted_wrt (\<lambda>a b. snd a \<le> fst b) rest" using Cons.prems(2) by simp
  have bnd: "\<forall>r \<in> set rest. snd seg \<le> fst r \<and> fst r \<le> snd r \<and> snd r \<le> D"
    using Cons.prems(2,3) by auto
  have IH: "(\<Union>r \<in> set (keep_from (snd seg) rest D @ rest). span r) = {snd seg ..< D}"
    using Cons.IH [OF seg(3) srt bnd] .
  have "(\<Union>r \<in> set (keep_from c (seg # rest) D @ seg # rest). span r)
      = {c ..< fst seg} \<union> span seg \<union> (\<Union>r \<in> set (keep_from (snd seg) rest D @ rest). span r)"
    using seg(1) by (auto simp: span_def)
  also have "\<dots> = {c ..< fst seg} \<union> {fst seg ..< snd seg} \<union> {snd seg ..< D}"
    using IH by (simp add: span_def)
  also have "\<dots> = {c ..< D}" using seg by auto
  finally show ?case .
qed

lemma keep_from_len:
  "c \<le> D \<Longrightarrow> sorted_wrt (\<lambda>a b. snd a \<le> fst b) rem \<Longrightarrow>
   \<forall>r \<in> set rem. c \<le> fst r \<and> fst r \<le> snd r \<and> snd r \<le> D \<Longrightarrow>
   sum_list (map seg_len (keep_from c rem D)) + sum_list (map seg_len rem) = D - c"
proof (induction rem arbitrary: c)
  case Nil
  then show ?case by (auto simp: seg_len_def)
next
  case (Cons seg rest)
  have seg: "c \<le> fst seg" "fst seg \<le> snd seg" "snd seg \<le> D" using Cons.prems(3) by auto
  have srt: "sorted_wrt (\<lambda>a b. snd a \<le> fst b) rest" using Cons.prems(2) by simp
  have bnd: "\<forall>r \<in> set rest. snd seg \<le> fst r \<and> fst r \<le> snd r \<and> snd r \<le> D"
    using Cons.prems(2,3) by auto
  have IH: "sum_list (map seg_len (keep_from (snd seg) rest D)) + sum_list (map seg_len rest)
      = D - snd seg"
    using Cons.IH [OF seg(3) srt bnd] .
  have l1: "seg_len seg = snd seg - fst seg" and l2: "seg_len (c, fst seg) = fst seg - c"
    by (simp_all add: seg_len_def)
  show ?case
  proof (cases "c < fst seg")
    case True
    then show ?thesis using IH l1 l2 by simp
  next
    case False
    then have "c = fst seg" using seg(1) by simp
    then show ?thesis using IH l1 by simp
  qed
qed

lemma keep_from_disjoint:
  "c \<le> D \<Longrightarrow> sorted_wrt (\<lambda>a b. snd a \<le> fst b) rem \<Longrightarrow>
   \<forall>r \<in> set rem. c \<le> fst r \<and> fst r \<le> snd r \<and> snd r \<le> D \<Longrightarrow>
   sorted_wrt (\<lambda>a b. span a \<inter> span b = {}) (keep_from c rem D @ rem)"
proof (induction rem arbitrary: c)
  case Nil
  then show ?case by simp
next
  case (Cons seg rest)
  have seg: "c \<le> fst seg" "fst seg \<le> snd seg" "snd seg \<le> D" using Cons.prems(3) by auto
  have srt: "sorted_wrt (\<lambda>a b. snd a \<le> fst b) rest" using Cons.prems(2) by simp
  have bnd: "\<forall>r \<in> set rest. snd seg \<le> fst r \<and> fst r \<le> snd r \<and> snd r \<le> D"
    using Cons.prems(2,3) by auto
  let ?K = "keep_from (snd seg) rest D"
  have IH: "sorted_wrt (\<lambda>a b. span a \<inter> span b = {}) (?K @ rest)"
    using Cons.IH [OF seg(3) srt bnd] .
  have cov: "(\<Union>r \<in> set (?K @ rest). span r) = {snd seg ..< D}"
    using keep_from_cover [OF seg(3) srt bnd] .
  have later: "\<forall>r \<in> set (?K @ rest). span r \<subseteq> {snd seg ..< D}"
    using cov by blast
  have "span seg \<inter> {snd seg ..< D} = {}" by (auto simp: span_def)
  then have d_seg: "\<forall>r \<in> set (?K @ rest). span seg \<inter> span r = {} \<and> span r \<inter> span seg = {}"
    using later by blast
  have "{c ..< fst seg} \<inter> {snd seg ..< D} = {}" using seg(2) by auto
  then have d_gap: "\<forall>r \<in> set (?K @ rest). {c ..< fst seg} \<inter> span r = {}"
    using later by blast
  have tail: "sorted_wrt (\<lambda>a b. span a \<inter> span b = {}) (?K @ seg # rest)"
    using IH d_seg by (auto simp: sorted_wrt_append)
  show ?case
  proof (cases "c < fst seg")
    case True
    have "span (c, fst seg) \<inter> span seg = {}" by (auto simp: span_def)
    moreover have "\<forall>r \<in> set (?K @ rest). span (c, fst seg) \<inter> span r = {}"
      using d_gap by (simp add: span_def)
    ultimately show ?thesis using True tail by auto
  next
    case False
    then show ?thesis using tail by simp
  qed
qed


section \<open>Lemmas about durations\<close>

lemma total_duration_Cons: "total_duration (x # xs) = seg_len x + total_duration xs"
  by (simp add: total_duration_def)

lemma total_duration_append: "total_duration (xs @ ys) = total_duration xs + total_duration ys"
  by (simp add: total_duration_def)

lemma total_duration_sort: "total_duration (sort xs) = total_duration xs"
proof -
  have "mset (map seg_len (sort xs)) = mset (map seg_len xs)" by simp
  then have "sum_mset (mset (map seg_len (sort xs))) = sum_mset (mset (map seg_len xs))"
    by simp
  then show ?thesis unfolding total_duration_def sum_mset_sum_list .
qed

lemma merge_len_le:
  assumes "fst cur \<le> snd cur" "fst seg \<le> snd seg" "\<not> fst seg > snd cur"
  shows "seg_len (fst cur, max (snd cur) (snd seg)) \<le> seg_len cur + seg_len seg"
  using assms by (auto simp: seg_len_def max_def)

lemma merge_len_less:
  assumes "fst cur \<le> fst seg" "overlap cur seg"
  shows "seg_len (fst cur, max (snd cur) (snd seg)) < seg_len cur + seg_len seg"
  using assms by (auto simp: seg_len_def overlap_def max_def min_def split: if_splits)

lemma merge_from_total_le:
  "fst cur \<le> snd cur \<Longrightarrow> \<forall>r \<in> set rest. fst r \<le> snd r \<Longrightarrow>
   total_duration (merge_from cur rest) \<le> seg_len cur + total_duration rest"
proof (induction rest arbitrary: cur)
  case Nil
  show ?case by (simp add: total_duration_def)
next
  case (Cons seg rest)
  have wseg: "fst seg \<le> snd seg" and wrest: "\<forall>r \<in> set rest. fst r \<le> snd r"
    using Cons.prems(2) by auto
  show ?case
  proof (cases "fst seg > snd cur")
    case True
    have "total_duration (merge_from seg rest) \<le> seg_len seg + total_duration rest"
      using Cons.IH [OF wseg wrest] .
    then show ?thesis using True by (simp add: total_duration_Cons)
  next
    case False
    let ?c = "(fst cur, max (snd cur) (snd seg))"
    have wc: "fst ?c \<le> snd ?c" using Cons.prems(1) by simp
    have "total_duration (merge_from ?c rest) \<le> seg_len ?c + total_duration rest"
      using Cons.IH [OF wc wrest] .
    moreover have "seg_len ?c \<le> seg_len cur + seg_len seg"
      using merge_len_le [OF Cons.prems(1) wseg False] .
    ultimately show ?thesis using False by (simp add: total_duration_Cons)
  qed
qed

lemma overlap_widen:
  "overlap x y \<Longrightarrow> fst c \<le> fst x \<Longrightarrow> snd x \<le> snd c \<Longrightarrow> overlap c y"
  by (auto simp: overlap_def max_def min_def split: if_splits)

lemma merge_from_total_less:
  "sorted (map fst (cur # rest)) \<Longrightarrow> fst cur \<le> snd cur \<Longrightarrow>
   \<forall>r \<in> set rest. fst r \<le> snd r \<Longrightarrow>
   \<not> sorted_wrt (\<lambda>a b. \<not> overlap a b) (cur # rest) \<Longrightarrow>
   total_duration (merge_from cur rest) < seg_len cur + total_duration rest"
proof (induction rest arbitrary: cur)
  case Nil
  then show ?case by simp
next
  case (Cons seg rest)
  have wseg: "fst seg \<le> snd seg" and wrest: "\<forall>r \<in> set rest. fst r \<le> snd r"
    using Cons.prems(3) by auto
  have le: "fst cur \<le> fst seg" and later: "\<forall>r \<in> set rest. fst seg \<le> fst r"
    and srt: "sorted (map fst (seg # rest))"
    using Cons.prems(1) by auto
  show ?case
  proof (cases "fst seg > snd cur")
    case True
    have "\<forall>y \<in> set (seg # rest). \<not> overlap cur y"
      using True later by (auto simp: overlap_def)
    then have "\<not> sorted_wrt (\<lambda>a b. \<not> overlap a b) (seg # rest)"
      using Cons.prems(4) by simp
    from Cons.IH [OF srt wseg wrest this]
    show ?thesis using True by (simp add: total_duration_Cons)
  next
    case False
    let ?c = "(fst cur, max (snd cur) (snd seg))"
    have wc: "fst ?c \<le> snd ?c" using Cons.prems(2) by simp
    have srtc: "sorted (map fst (?c # rest))" using Cons.prems(1) by simp
    have step: "seg_len ?c \<le> seg_len cur + seg_len seg"
      using merge_len_le [OF Cons.prems(2) wseg False] .
    show ?thesis
    proof (cases "overlap cur seg")
      case True
      have "seg_len ?c < seg_len cur + seg_len seg"
        using merge_len_less [OF le True] .
      moreover have "total_duration (merge_from ?c rest) \<le> seg_len ?c + total_duration rest"
        using merge_from_total_le [OF wc wrest] .
      ultimately show ?thesis using False by (simp add: total_duration_Cons)
    next
      case no: False
      have "(\<exists>y \<in> set rest. overlap cur y \<or> overlap seg y)
          \<or> \<not> sorted_wrt (\<lambda>a b. \<not> overlap a b) rest"
        using Cons.prems(4) no by auto
      moreover have "overlap ?c y" if "overlap cur y" for y
        using that by (rule overlap_widen) simp_all
      moreover have "overlap ?c y" if "overlap seg y" for y
        using that by (rule overlap_widen) (use le in simp_all)
      ultimately have "\<not> sorted_wrt (\<lambda>a b. \<not> overlap a b) (?c # rest)"
        unfolding sorted_wrt.simps(2) by blast
      from Cons.IH [OF srtc wc wrest this]
      have "total_duration (merge_from ?c rest) < seg_len ?c + total_duration rest" .
      then show ?thesis using step False by (simp add: total_duration_Cons)
    qed
  qed
qed

lemma overlap_sym: "overlap a b \<Longrightarrow> overlap b a"
  by (simp add: overlap_def max.commute min.commute)

lemma overlapping_pair_in_perm:
  "mset zs = add_mset a (add_mset b M) \<Longrightarrow> overlap a b \<Longrightarrow>
   \<not> sorted_wrt (\<lambda>a b. \<not> overlap a b) zs"
proof (induction zs arbitrary: M)
  case Nil
  then show ?case by simp
next
  case (Cons z zs)
  have eq: "add_mset z (mset zs) = add_mset a (add_mset b M)" using Cons.prems(1) by simp
  show ?case
  proof (cases "z = a")
    case True
    then have "mset zs = add_mset b M" using eq by simp
    then have "b \<in> set zs" by (metis mset_add union_single_eq_member set_mset_mset add_mset_remove_trivial_eq)
    then show ?thesis using True Cons.prems(2) by auto
  next
    case za: False
    show ?thesis
    proof (cases "z = b")
      case True
      then have "mset zs = add_mset a M" using eq by (simp add: add_mset_commute)
      then have "a \<in> set zs" by (metis union_single_eq_member set_mset_mset)
      then show ?thesis using True overlap_sym [OF Cons.prems(2)] by auto
    next
      case zb: False
      have "z \<in># add_mset a (add_mset b M)" using eq by (metis union_single_eq_member)
      then have "z \<in># M" using za zb by simp
      then obtain K where K: "M = add_mset z K" by (meson mset_add)
      then have "mset zs = add_mset a (add_mset b K)"
        using eq by (simp add: add_mset_commute)
      from Cons.IH [OF this Cons.prems(2)] show ?thesis by simp
    qed
  qed
qed


section \<open>Lemmas about the loader\<close>

lemmas string_eval = strip_def isspace_def lower_def lower_char_def
lemmas float_eval = float_decimal_def unsigned_decimal_def digits_value_def digit_of_def
lemmas row_eval = csv_row_def row_get_def parse_record_def check_record_range_def
  record_fields_def new_op_def dict_get_def try_row_v1_def try_row_beta_def
  parse_timestamp_string_def parse_source_def insert_fields_def transitions_def
  transition_name_def transition_duration_def

text \<open>The loop without strict mode never stops early; with it, it stops at the first failing row.\<close>

lemma load_rows_lenient:
  "load_rows body False i rows ops pr =
     (pr @ concat (map (\<lambda>(k, row). case body row of Inl e \<Rightarrow> [(k, e)] | Inr op \<Rightarrow> [])
                     (enumerate i rows)),
      Inr (ops @ concat (map (\<lambda>row. case body row of Inl e \<Rightarrow> [] | Inr op \<Rightarrow> [op]) rows)))"
  by (induction rows arbitrary: i ops pr) (auto split: sum.splits)

lemma load_rows_strict_fail:
  "\<forall>row \<in> set pre. \<exists>op. body row = Inr op \<Longrightarrow> body bad = Inl e \<Longrightarrow>
   load_rows body True i (pre @ bad # post) ops pr = (pr, Inl (ErrorInRow (i + length pre) e))"
  by (induction pre arbitrary: i ops) (auto split: sum.splits)

lemma load_rows_strict_ok:
  "\<forall>row \<in> set rows. \<exists>op. body row = Inr op \<Longrightarrow>
   load_rows body True i rows ops pr = (pr, Inr (ops @ map (\<lambda>row. projr (body row)) rows))"
  by (induction rows arbitrary: i ops) (auto split: sum.splits)

text \<open>Four rows of an EDL for a video of 10 seconds; the second has no \<open>record_out\<close>.\<close>

lemma example_row_1: "try_row_v1 float_decimal (Some 10)
      (csv_row [(''action'', ''remove''), (''record_in'', ''1''), (''record_out'', ''2'')])
    = Inr ((new_op ''remove'')\<lparr>record_in := Some (Some 1), record_out := Some (Some 2)\<rparr>)"
  by (simp add: row_eval string_eval float_eval)

lemma example_row_2: "try_row_v1 float_decimal (Some 10)
      (csv_row [(''action'', ''remove''), (''record_in'', ''5''), (''record_out'', '''')])
    = Inl (MissingRecord ''remove'')"
  by (simp add: row_eval string_eval float_eval)

lemma example_row_3: "try_row_v1 float_decimal (Some 10)
      (csv_row [(''action'', ''Keep''), (''record_in'', ''0:03''), (''record_out'', ''end'')])
    = Inr ((new_op ''keep'')\<lparr>record_in := Some (Some 3), record_out := Some (Some 10)\<rparr>)"
  by (simp add: row_eval string_eval float_eval)

lemma example_row_4: "try_row_v1 float_decimal (Some 10)
      (csv_row [(''action'', ''mute_audio''), (''record_in'', ''6''), (''record_out'', ''7'')])
    = Inr ((new_op ''mute_audio'')\<lparr>record_in := Some (Some 6), record_out := Some (Some 7)\<rparr>)"
  by (simp add: row_eval string_eval float_eval)

text \<open>What the parser returns on a text that is neither \<open>start\<close> nor \<open>end\<close>.\<close>

lemma split_colon_no_colon: "CHR '':'' \<notin> set s \<Longrightarrow> split_colon s = [s]"
  by (induction s) auto

lemma split_colon_two_has_colon:
  "length (split_colon s) \<noteq> 1 \<Longrightarrow> CHR '':'' \<in> set s"
proof (rule ccontr)
  assume a: "length (split_colon s) \<noteq> 1"
  assume "CHR '':'' \<notin> set s"
  then have "split_colon s = [s]" by (rule split_colon_no_colon)
  then show False using a by simp
qed

lemma parse_plain:
  assumes "lower (strip s) \<noteq> ''start''" "lower (strip s) \<noteq> ''end''"
    "CHR '':'' \<notin> set (lower (strip s))" "fl (lower (strip s)) = Some x"
  shows "parse_timestamp_string fl s vd = Inr (Some x)"
  using assms by (simp add: parse_timestamp_string_def Let_def)

lemma parse_two_parts:
  assumes "split_colon (lower (strip s)) = [m, sec]" "fl m = Some a" "fl sec = Some b"
  shows "parse_timestamp_string fl s vd = Inr (Some (a * 60 + b))"
proof -
  have c: "CHR '':'' \<in> set (lower (strip s))"
    using split_colon_two_has_colon [of "lower (strip s)"] assms(1) by simp
  then have "lower (strip s) \<noteq> ''start''" and "lower (strip s) \<noteq> ''end''" by auto
  then show ?thesis using c assms by (simp add: parse_timestamp_string_def Let_def)
qed

lemma parse_three_parts:
  assumes "split_colon (lower (strip s)) = [h, m, sec]" "fl h = Some c" "fl m = Some a"
    "fl sec = Some b"
  shows "parse_timestamp_string fl s vd = Inr (Some (c * 3600 + a * 60 + b))"
proof -
  have c: "CHR '':'' \<in> set (lower (strip s))"
    using split_colon_two_has_colon [of "lower (strip s)"] assms(1) by simp
  then have "lower (strip s) \<noteq> ''start''" and "lower (strip s) \<noteq> ''end''" by auto
  then show ?thesis using c assms by (simp add: parse_timestamp_string_def Let_def)
qed

lemma parse_ignores_duration:
  "lower (strip s) \<noteq> ''end'' \<Longrightarrow>
   parse_timestamp_string fl s vd = parse_timestamp_string fl s vd'"
  by (simp add: parse_timestamp_string_def Let_def)








section \<open>Properties of the interval normalization\<close>

text \<open>
  Claim C5. For every input list of segments, the output of the normalization (sort,
  then the merge loop) is sorted ascending by start, and every adjacent pair \<open>(a, b)\<close>
  of the output satisfies \<open>a.end < b.start\<close>; the same holds of every earlier and
  later entry, adjacent or not.
\<close>

theorem merged_sorted_disjoint:
  "sorted (map fst (merged xs))
   \<and> successively (\<lambda>a b. snd a < fst b) (merged xs)
   \<and> sorted_wrt (\<lambda>a b. snd a < fst b) (merged xs)"
proof -
  have "successively (\<lambda>a b. snd a < fst b) (merged xs)"
    using merged_separated [of xs] by (rule successively_if_sorted_wrt)
  then show ?thesis using merged_sorted_starts merged_separated by blast
qed

text \<open>
  Claim C7. The normalization is idempotent: for every input list of segments,
  normalizing the normalized list gives the normalized list again.
\<close>

theorem merged_idempotent: "merged (merged xs) = merged xs"
proof -
  have "sort (merged xs) = merged xs"
    using merged_lex_sorted [of xs] by (simp add: sorted_sort_id)
  then have "merged (merged xs) = foldl merge_step [] (merged xs)"
    by (simp add: merged_def)
  also have "\<dots> = merged xs"
    using merged_separated [of xs] by (rule merge_loop_separated_id)
  finally show ?thesis .
qed

text \<open>
  Claim C3, as the code has it. Two input segments that touch at an exact boundary
  (\<open>a.end = b.start\<close>) are not kept apart: the loop opens a new entry only when
  \<open>seg[0] > merged[-1][1]\<close>, so a single entry of the output spans both. The
  statement is for well-formed \<open>a\<close> and \<open>b\<close> (start not after end), as both input paths
  of the script produce them.
\<close>

theorem merged_touching_joined:
  assumes a: "a \<in> set xs" and b: "b \<in> set xs" and touch: "snd a = fst b"
    and wa: "fst a \<le> snd a" and wb: "fst b \<le> snd b"
  shows "\<exists>r \<in> set (merged xs). fst r \<le> fst a \<and> snd b \<le> snd r"
proof -
  obtain r1 where r1: "r1 \<in> set (merged xs)" and c1: "covers r1 a"
    using merged_covers [OF a] by blast
  obtain r2 where r2: "r2 \<in> set (merged xs)" and c2: "covers r2 b"
    using merged_covers [OF b] by blast
  have "r1 = r2 \<or> snd r1 < fst r2 \<or> snd r2 < fst r1"
    using sorted_wrt_cases [OF merged_separated r1 r2] .
  moreover have "\<not> snd r1 < fst r2"
    using c1 c2 touch by (simp add: covers_def)
  moreover have "\<not> snd r2 < fst r1"
    using c1 c2 touch wa wb by (simp add: covers_def)
  ultimately have "r1 = r2" by blast
  then have "fst r1 \<le> fst a \<and> snd b \<le> snd r1" using c1 c2 by (simp add: covers_def)
  then show ?thesis using r1 by blast
qed

text \<open>
  The claim as stated fails on \<open>[(0, 2), (2, 5)]\<close>: the output is the single entry
  \<open>(0, 5)\<close>, and neither input segment is an entry of it.
\<close>

theorem merged_touching_counterexample:
  "merged [(0, 2), (2, 5)] = [(0, 5)]
   \<and> (0, 2) \<notin> set (merged [(0, 2), (2, 5)]) \<and> (2, 5) \<notin> set (merged [(0, 2), (2, 5)])"
  by (simp add: merged_def merge_step_def)

text \<open>The theorem at the same input.\<close>

theorem merged_touching_joined_witness:
  "(0, 2) \<in> set [(0, 2), (2, 5 :: real)] \<and> snd (0 :: real, 2 :: real) = fst (2 :: real, 5 :: real)
   \<and> (\<exists>r \<in> set (merged [(0, 2), (2, 5)]). fst r \<le> 0 \<and> 5 \<le> snd r)"
  using merged_touching_joined [of "(0, 2)" "[(0, 2), (2, 5)]" "(2, 5)"] by simp

section \<open>Properties of the keep segments\<close>

text \<open>
  Claim C4. For a remove list that is sorted and disjoint (each segment ends no later
  than the next one starts) and whose segments lie within \<open>[0, D]\<close>, the keep segments
  together with the remove segments tile \<open>[0, D)\<close>: their half-open intervals cover it
  exactly, no two of them overlap, and their lengths add up to \<open>D\<close>. With nothing to
  remove and a timeline of positive length the keep list is the single segment
  \<open>(0, D)\<close>, and the script does not exit.
\<close>

theorem keep_segments_tile:
  assumes D: "0 \<le> D"
    and srt: "sorted_wrt (\<lambda>a b. snd a \<le> fst b) rem"
    and bnd: "\<forall>r \<in> set rem. 0 \<le> fst r \<and> fst r \<le> snd r \<and> snd r \<le> D"
  shows "(\<Union>r \<in> set (keep_segments rem D @ rem). span r) = {0 ..< D}
    \<and> sorted_wrt (\<lambda>a b. span a \<inter> span b = {}) (keep_segments rem D @ rem)
    \<and> sum_list (map seg_len (keep_segments rem D)) + sum_list (map seg_len rem) = D
    \<and> (0 < D \<longrightarrow> keep_segments [] D = [(0, D)] \<and> keep_or_exit [] D = Inr [(0, D)])"
proof -
  have "(\<Union>r \<in> set (keep_from 0 rem D @ rem). span r) = {0 ..< D}"
    using keep_from_cover [OF D srt bnd] .
  moreover have "sorted_wrt (\<lambda>a b. span a \<inter> span b = {}) (keep_from 0 rem D @ rem)"
    using keep_from_disjoint [OF D srt bnd] .
  moreover have "sum_list (map seg_len (keep_from 0 rem D)) + sum_list (map seg_len rem) = D"
    using keep_from_len [OF D srt bnd] by simp
  moreover have "0 < D \<longrightarrow> keep_from 0 [] D = [(0, D)]" by simp
  ultimately show ?thesis
    by (simp add: keep_segments_keep_from keep_or_exit_def)
qed

text \<open>
  The theorem at the remove set \<open>[(2, 8), (10, 12)]\<close> of a timeline of 15 seconds.
\<close>

theorem keep_segments_tile_witness:
  "keep_segments [(2, 8), (10, 12)] 15 = [(0, 2), (8, 10), (12, 15)]
   \<and> (\<Union>r \<in> set ([(0, 2), (8, 10), (12, 15)] @ [(2, 8), (10, 12)]). span r) = {0 ..< 15}
   \<and> sum_list (map seg_len [(0, 2), (8, 10), (12, 15)]) + sum_list (map seg_len [(2, 8), (10, 12)]) = 15
   \<and> keep_segments [] 15 = [(0, 15)]"
proof -
  have k: "keep_segments [(2, 8), (10, 12)] 15 = [(0, 2), (8, 10), (12, 15)]"
    by (simp add: keep_segments_def keep_step_def)
  show ?thesis
    using keep_segments_tile [of 15 "[(2, 8), (10, 12)]"] k by simp
qed

section \<open>Properties of the mute segments\<close>

text \<open>
  Claim C9. The mute segments of the EDL and those entered at the prompt are put into
  one list, sorted and merged. For well-formed segments (start not after end) the
  total duration of the merged list is at most the sum of the two inputs' total
  durations, and strictly less whenever some EDL segment overlaps some entered
  segment. A segment that ends before it starts has a negative length and is not a
  range of the timeline; the statement is about lists without such segments.
\<close>

theorem reconcile_total_duration:
  assumes wf: "\<forall>r \<in> set (edl_mute_segments @ manual_mute_segments). fst r \<le> snd r"
  shows "total_duration (merged_segments (edl_mute_segments @ manual_mute_segments))
           \<le> total_duration edl_mute_segments + total_duration manual_mute_segments
    \<and> ((\<exists>a \<in> set edl_mute_segments. \<exists>b \<in> set manual_mute_segments. overlap a b) \<longrightarrow>
        total_duration (merged_segments (edl_mute_segments @ manual_mute_segments))
           < total_duration edl_mute_segments + total_duration manual_mute_segments)"
proof -
  let ?all = "edl_mute_segments @ manual_mute_segments"
  have tot: "total_duration (sort ?all)
      = total_duration edl_mute_segments + total_duration manual_mute_segments"
    by (simp add: total_duration_sort total_duration_append)
  show ?thesis
  proof (cases "sort ?all")
    case Nil
    then have "set (sort ?all) = {}" by simp
    then have "edl_mute_segments = []" and "manual_mute_segments = []" by simp_all
    then show ?thesis by (simp add: merged_segments_def total_duration_def)
  next
    case (Cons y ys)
    have m: "merged_segments ?all = merge_from y ys"
      using Cons by (simp add: merged_segments_def foldl_merge_step_Cons del: foldl_Cons)
    have srt: "sorted (map fst (y # ys))" using sorted_map_fst_sort [of ?all] Cons by simp
    have "set (y # ys) = set ?all" using Cons by (metis set_sort)
    then have wy: "fst y \<le> snd y" and wys: "\<forall>r \<in> set ys. fst r \<le> snd r"
      using wf by auto
    have t: "seg_len y + total_duration ys
        = total_duration edl_mute_segments + total_duration manual_mute_segments"
      using tot Cons by (simp add: total_duration_Cons)
    have le: "total_duration (merge_from y ys) \<le> seg_len y + total_duration ys"
      using merge_from_total_le [OF wy wys] .
    have less: "total_duration (merge_from y ys) < seg_len y + total_duration ys"
      if a: "a \<in> set edl_mute_segments" and b: "b \<in> set manual_mute_segments"
        and ov: "overlap a b" for a b
    proof -
      obtain A where A: "mset edl_mute_segments = add_mset a A"
        using a by (meson mset_add in_multiset_in_set)
      obtain B where B: "mset manual_mute_segments = add_mset b B"
        using b by (meson mset_add in_multiset_in_set)
      have "mset (y # ys) = mset ?all" using Cons by (metis mset_sort)
      then have "mset (y # ys) = add_mset a (add_mset b (A + B))" using A B by simp
      from overlapping_pair_in_perm [OF this ov]
      have "\<not> sorted_wrt (\<lambda>a b. \<not> overlap a b) (y # ys)" .
      from merge_from_total_less [OF srt wy wys this] show ?thesis .
    qed
    show ?thesis using m t le less by auto
  qed
qed

text \<open>
  The theorem at the EDL segment \<open>(0, 10)\<close> and the entered segment \<open>(5, 15)\<close>: merged
  into \<open>(0, 15)\<close>, of duration 15 against 20.
\<close>

theorem reconcile_total_duration_witness:
  "overlap (0, 10) (5, 15)
   \<and> merged_segments ([(0, 10)] @ [(5, 15)]) = [(0, 15)]
   \<and> total_duration (merged_segments ([(0, 10)] @ [(5, 15)]))
       < total_duration [(0, 10)] + total_duration [(5, 15)]"
proof -
  have ov: "overlap (0, 10) (5, 15)" by (simp add: overlap_def)
  have m: "merged_segments ([(0, 10)] @ [(5, 15)]) = [(0, 15)]"
    by (simp add: merged_segments_def merge_step_def)
  have "total_duration (merged_segments ([(0, 10)] @ [(5, 15)]))
       < total_duration [(0, 10)] + total_duration [(5, 15)]"
    using reconcile_total_duration [of "[(0, 10)]" "[(5, 15)]"] ov by simp
  then show ?thesis using ov m by blast
qed

section \<open>Properties of the loader and the timestamp parser\<close>

text \<open>
  Claim C6. Without strict mode the loader of \<open>PyClipper_v1.py\<close> skips every failing
  row, prints one diagnostic for it with its row number counted from 1, and returns
  the operations of all other rows in file order. In strict mode the first failing
  row aborts the load with an error that carries its row number counted from 1; when
  no row fails, strict mode returns every operation.
\<close>

theorem load_edl_csv_row_failures:
  "load_edl_csv_v1 fl rows vd False =
     (concat (map (\<lambda>(k, row). case try_row_v1 fl vd row of Inl e \<Rightarrow> [(k, e)] | Inr op \<Rightarrow> [])
                (enumerate 1 rows)),
      Inr (concat (map (\<lambda>row. case try_row_v1 fl vd row of Inl e \<Rightarrow> [] | Inr op \<Rightarrow> [op]) rows)))
   \<and> ((\<forall>row \<in> set pre. \<exists>op. try_row_v1 fl vd row = Inr op) \<and> try_row_v1 fl vd bad = Inl e \<longrightarrow>
        load_edl_csv_v1 fl (pre @ bad # post) vd True
          = ([], Inl (ErrorInRow (length pre + 1) e)))
   \<and> ((\<forall>row \<in> set rows. \<exists>op. try_row_v1 fl vd row = Inr op) \<longrightarrow>
        load_edl_csv_v1 fl rows vd True
          = ([], Inr (map (\<lambda>row. projr (try_row_v1 fl vd row)) rows)))"
proof -
  have "load_edl_csv_v1 fl rows vd False =
     (concat (map (\<lambda>(k, row). case try_row_v1 fl vd row of Inl e \<Rightarrow> [(k, e)] | Inr op \<Rightarrow> [])
                (enumerate 1 rows)),
      Inr (concat (map (\<lambda>row. case try_row_v1 fl vd row of Inl e \<Rightarrow> [] | Inr op \<Rightarrow> [op]) rows)))"
    unfolding load_edl_csv_v1_def load_rows_lenient by simp
  moreover have "load_edl_csv_v1 fl (pre @ bad # post) vd True
          = ([], Inl (ErrorInRow (length pre + 1) e))"
    if "\<forall>row \<in> set pre. \<exists>op. try_row_v1 fl vd row = Inr op" "try_row_v1 fl vd bad = Inl e"
    unfolding load_edl_csv_v1_def using load_rows_strict_fail [OF that] by simp
  moreover have "load_edl_csv_v1 fl rows vd True
          = ([], Inr (map (\<lambda>row. projr (try_row_v1 fl vd row)) rows))"
    if "\<forall>row \<in> set rows. \<exists>op. try_row_v1 fl vd row = Inr op"
    unfolding load_edl_csv_v1_def using load_rows_strict_ok [OF that] by simp
  ultimately show ?thesis by blast
qed

text \<open>
  Three valid rows and a \<open>remove\<close> row without \<open>record_out\<close> in second place: three
  operations and one diagnostic for row 2 without strict mode, an error for row 2
  with it.
\<close>

theorem load_edl_csv_row_failures_witness:
  "load_edl_csv_v1 float_decimal
     [csv_row [(''action'', ''remove''), (''record_in'', ''1''), (''record_out'', ''2'')],
      csv_row [(''action'', ''remove''), (''record_in'', ''5''), (''record_out'', '''')],
      csv_row [(''action'', ''Keep''), (''record_in'', ''0:03''), (''record_out'', ''end'')],
      csv_row [(''action'', ''mute_audio''), (''record_in'', ''6''), (''record_out'', ''7'')]]
     (Some 10) False
   = ([(2, MissingRecord ''remove'')],
      Inr [(new_op ''remove'')\<lparr>record_in := Some (Some 1), record_out := Some (Some 2)\<rparr>,
           (new_op ''keep'')\<lparr>record_in := Some (Some 3), record_out := Some (Some 10)\<rparr>,
           (new_op ''mute_audio'')\<lparr>record_in := Some (Some 6), record_out := Some (Some 7)\<rparr>])
   \<and> load_edl_csv_v1 float_decimal
     ([csv_row [(''action'', ''remove''), (''record_in'', ''1''), (''record_out'', ''2'')]]
      @ csv_row [(''action'', ''remove''), (''record_in'', ''5''), (''record_out'', '''')]
      # [csv_row [(''action'', ''Keep''), (''record_in'', ''0:03''), (''record_out'', ''end'')],
         csv_row [(''action'', ''mute_audio''), (''record_in'', ''6''), (''record_out'', ''7'')]])
     (Some 10) True
   = ([], Inl (ErrorInRow 2 (MissingRecord ''remove'')))"
  using load_edl_csv_row_failures
    [of float_decimal
      "[csv_row [(''action'', ''remove''), (''record_in'', ''1''), (''record_out'', ''2'')],
        csv_row [(''action'', ''remove''), (''record_in'', ''5''), (''record_out'', '''')],
        csv_row [(''action'', ''Keep''), (''record_in'', ''0:03''), (''record_out'', ''end'')],
        csv_row [(''action'', ''mute_audio''), (''record_in'', ''6''), (''record_out'', ''7'')]]"
      "Some 10"
      "[csv_row [(''action'', ''remove''), (''record_in'', ''1''), (''record_out'', ''2'')]]"
      "csv_row [(''action'', ''remove''), (''record_in'', ''5''), (''record_out'', '''')]"
      "MissingRecord ''remove''"
      "[csv_row [(''action'', ''Keep''), (''record_in'', ''0:03''), (''record_out'', ''end'')],
        csv_row [(''action'', ''mute_audio''), (''record_in'', ''6''), (''record_out'', ''7'')]]"]
  by (simp add: example_row_1 example_row_2 example_row_3 example_row_4)

text \<open>
  Claim C2, as the code has it. On the text \<open>end\<close> the parser returns its duration
  argument unchanged: the duration when there is one, and \<^verbatim>\<open>None\<close> when it is
  \<^verbatim>\<open>None\<close>. It raises nothing; the insert branch of the Beta loader calls it with
  \<^verbatim>\<open>None\<close> and tests the result for \<^verbatim>\<open>None\<close> itself.
\<close>

theorem parse_end_returns_duration:
  "parse_timestamp_string fl ''end'' video_duration = Inr video_duration
   \<and> parse_timestamp_string fl '' End '' video_duration = Inr video_duration
   \<and> parse_timestamp_string fl ''end'' (Some 42) = Inr (Some 42)
   \<and> parse_timestamp_string fl ''end'' None = Inr None
   \<and> parse_source fl (Some ''end'') = Inr None"
  by (simp add: parse_timestamp_string_def parse_source_def string_eval)

text \<open>The claim as stated fails: with no duration, \<open>end\<close> is not an error.\<close>

theorem parse_end_counterexample:
  "parse_timestamp_string float_decimal ''end'' None = Inr None
   \<and> \<not> isl (parse_timestamp_string float_decimal ''end'' None)"
  by (simp add: parse_timestamp_string_def string_eval)

text \<open>
  Claim C1, on the code. Both loaders apply the presence and range checks only when
  the action is \<open>remove\<close> or \<open>keep\<close>. A \<open>mute_audio\<close> row whose \<open>record_in\<close> is after
  its \<open>record_out\<close>, or that has no \<open>record_out\<close>, or whose timestamps lie outside the
  video of 10 seconds, is loaded as an operation, in strict mode too, where the
  specification has it fail like a \<open>remove\<close> row. The script then reads
  \<^verbatim>\<open>op['record_out']\<close> of every \<open>mute_audio\<close> operation, which raises \<^verbatim>\<open>KeyError\<close> for the
  row without \<open>record_out\<close>; the mute segments entered at the prompt are checked
  for \<open>start < end\<close> within the video before they are used.
\<close>

theorem mute_audio_row_not_checked:
  "load_edl_csv_v1 float_decimal
     [csv_row [(''action'', ''mute_audio''), (''record_in'', ''8''), (''record_out'', ''3'')]]
     (Some 10) True
   = ([], Inr [(new_op ''mute_audio'')\<lparr>record_in := Some (Some 8), record_out := Some (Some 3)\<rparr>])
   \<and> load_edl_csv_v1 float_decimal
     [csv_row [(''action'', ''mute_audio''), (''record_in'', ''8''), (''record_out'', '''')]]
     (Some 10) False
   = ([], Inr [(new_op ''mute_audio'')\<lparr>record_in := Some (Some 8)\<rparr>])
   \<and> load_edl_csv_v1 float_decimal
     [csv_row [(''action'', ''mute_audio''), (''record_in'', ''-5''), (''record_out'', ''90:00'')]]
     (Some 10) False
   = ([], Inr [(new_op ''mute_audio'')\<lparr>record_in := Some (Some (- 5)), record_out := Some (Some 5400)\<rparr>])
   \<and> load_edl_csv_beta float_decimal
     [csv_row [(''action'', ''mute_audio''), (''record_in'', ''8''), (''record_out'', ''3'')]]
     (Some 10) True
   = ([], Inr [(new_op ''mute_audio'')\<lparr>record_in := Some (Some 8), record_out := Some (Some 3)\<rparr>])
   \<and> edl_segments ''mute_audio'' [(new_op ''mute_audio'')\<lparr>record_in := Some (Some 8)\<rparr>]
   = Inl (KeyError ''record_out'')"
  by (simp add: load_edl_csv_v1_def load_edl_csv_beta_def row_eval string_eval float_eval)

text \<open>
  Claim C10. The parser checks neither sign nor range. On every text but \<open>end\<close> its
  result does not depend on the duration; a text without colon that \<^verbatim>\<open>float\<close> reads is
  returned as read, and a text of two or three readable parts gives
  \<open>M * 60 + S\<close> or \<open>H * 3600 + M * 60 + S\<close>, negative or beyond the duration as it
  may be: \<open>-5\<close> gives \<open>-5.0\<close> and \<open>90:00\<close> gives \<open>5400.0\<close> for every duration. The
  range check comes later, in the loader, and only when the action is \<open>remove\<close> or
  \<open>keep\<close>: every other operation passes it unchanged, and a \<open>remove\<close> or \<open>keep\<close>
  operation that starts before 0 or ends after the duration is rejected.
\<close>

theorem parse_no_range_check:
  "(lower (strip s) \<noteq> ''end'' \<longrightarrow>
      parse_timestamp_string fl s vd = parse_timestamp_string fl s vd')
   \<and> (lower (strip s) \<noteq> ''start'' \<and> lower (strip s) \<noteq> ''end''
        \<and> CHR '':'' \<notin> set (lower (strip s)) \<and> fl (lower (strip s)) = Some x \<longrightarrow>
      parse_timestamp_string fl s vd = Inr (Some x))
   \<and> (split_colon (lower (strip s)) = [m, sec] \<and> fl m = Some a \<and> fl sec = Some b \<longrightarrow>
      parse_timestamp_string fl s vd = Inr (Some (a * 60 + b)))
   \<and> (split_colon (lower (strip s)) = [h, m, sec] \<and> fl h = Some c \<and> fl m = Some a
        \<and> fl sec = Some b \<longrightarrow>
      parse_timestamp_string fl s vd = Inr (Some (c * 3600 + a * 60 + b)))
   \<and> parse_timestamp_string float_decimal ''-5'' vd = Inr (Some (- 5))
   \<and> parse_timestamp_string float_decimal ''90:00'' vd = Inr (Some 5400)
   \<and> (action op \<noteq> ''remove'' \<and> action op \<noteq> ''keep'' \<longrightarrow>
      check_record_range vd op = Inr op)
   \<and> ((action op = ''remove'' \<or> action op = ''keep'')
        \<and> record_in op = Some (Some t_in) \<and> record_out op = Some (Some t_out)
        \<and> (t_in < 0 \<or> d < t_out) \<longrightarrow>
      check_record_range (Some d) op = Inl (InvalidTimeRange t_in t_out))"
proof -
  have "parse_timestamp_string float_decimal ''-5'' vd = Inr (Some (- 5))"
    by (simp add: parse_timestamp_string_def string_eval float_eval)
  moreover have "parse_timestamp_string float_decimal ''90:00'' vd = Inr (Some 5400)"
    by (simp add: parse_timestamp_string_def string_eval float_eval)
  moreover have "check_record_range vd op = Inr op"
    if "action op \<noteq> ''remove''" "action op \<noteq> ''keep''"
    using that by (simp add: check_record_range_def)
  moreover have "check_record_range (Some d) op = Inl (InvalidTimeRange t_in t_out)"
    if "action op = ''remove'' \<or> action op = ''keep''"
      "record_in op = Some (Some t_in)" "record_out op = Some (Some t_out)"
      "t_in < 0 \<or> d < t_out"
    using that by (auto simp: check_record_range_def dict_get_def)
  ultimately show ?thesis
    using parse_ignores_duration [of s fl vd vd'] parse_plain [of s fl x vd]
      parse_two_parts [of s m sec fl a b vd] parse_three_parts [of s h m sec fl c a b vd]
    by blast
qed

text \<open>
  The theorem at \<open>-5\<close>, \<open>90:00\<close> and \<open>1:00:01.5\<close>, and at a \<open>mute_audio\<close> and a
  \<open>remove\<close> operation from \<open>-5.0\<close> to \<open>5400.0\<close> in a video of 10 seconds.
\<close>

theorem parse_no_range_check_witness:
  "parse_timestamp_string float_decimal ''-5'' (Some 10) = Inr (Some (- 5))
   \<and> parse_timestamp_string float_decimal ''90:00'' (Some 10) = Inr (Some 5400)
   \<and> parse_timestamp_string float_decimal ''1:00:01.5'' None = Inr (Some (7203 / 2))
   \<and> parse_timestamp_string float_decimal ''90:00'' (Some 10)
       = parse_timestamp_string float_decimal ''90:00'' None
   \<and> check_record_range (Some 10)
        ((new_op ''mute_audio'')\<lparr>record_in := Some (Some (- 5)), record_out := Some (Some 5400)\<rparr>)
       = Inr ((new_op ''mute_audio'')\<lparr>record_in := Some (Some (- 5)), record_out := Some (Some 5400)\<rparr>)
   \<and> check_record_range (Some 10)
        ((new_op ''remove'')\<lparr>record_in := Some (Some (- 5)), record_out := Some (Some 5400)\<rparr>)
       = Inl (InvalidTimeRange (- 5) 5400)"
  using parse_no_range_check
    [of "''90:00''" float_decimal "Some 10" None "- 5" "''90''" "''00''" 90 0
        "''1''" 1
        "(new_op ''mute_audio'')\<lparr>record_in := Some (Some (- 5)), record_out := Some (Some 5400)\<rparr>"
        "- 5" 5400 10]
    parse_no_range_check
    [of "''-5''" float_decimal "Some 10" None "- 5" "''1''" "''00''" 0 "3 / 2"
        "''1''" 1
        "(new_op ''remove'')\<lparr>record_in := Some (Some (- 5)), record_out := Some (Some 5400)\<rparr>"
        "- 5" 5400 10]
    parse_no_range_check
    [of "''1:00:01.5''" float_decimal None None "- 5" "''00''" "''01.5''" 0 "3 / 2"
        "''1''" 1
        "(new_op ''remove'')\<lparr>record_in := Some (Some (- 5)), record_out := Some (Some 5400)\<rparr>"
        "- 5" 5400 10]
  by (simp add: string_eval float_eval new_op_def)




end
